theory Spec2Isabelle
  imports Main "HOL-Library.Monad_Syntax"
begin

unbundle bit_operations_syntax

section \<open>Python lists\<close>

text \<open>
  The only exception the CPU class can raise is Python's IndexError, on a list index
  outside \<open>[-len, len)\<close>. A computation that raises is \<open>None\<close>; one that returns
  is \<open>Some\<close> of its result. Negative indices count from the end of the list.
\<close>

definition py_index :: "'a list \<Rightarrow> int \<Rightarrow> nat option" where
  "py_index xs i =
     (if 0 \<le> i \<and> i < int (length xs) then Some (nat i)
      else if i < 0 \<and> - int (length xs) \<le> i then Some (nat (int (length xs) + i))
      else None)"

definition py_get :: "'a list \<Rightarrow> int \<Rightarrow> 'a option" where
  "py_get xs i = (case py_index xs i of None \<Rightarrow> None | Some k \<Rightarrow> Some (xs ! k))"

definition py_set :: "'a list \<Rightarrow> int \<Rightarrow> 'a \<Rightarrow> 'a list option" where
  "py_set xs i v = (case py_index xs i of None \<Rightarrow> None | Some k \<Rightarrow> Some (xs[k := v]))"

text \<open>
  Slice bounds are clamped, never rejected: \<open>xs[a:b] = ys\<close> replaces the (possibly
  empty) segment between the clamped bounds by \<open>ys\<close>, whatever the two lengths are.
\<close>

definition slice_bound :: "'a list \<Rightarrow> int \<Rightarrow> nat" where
  "slice_bound xs i =
     (if i < 0 then nat (max 0 (int (length xs) + i)) else min (nat i) (length xs))"

definition py_set_slice :: "'a list \<Rightarrow> int \<Rightarrow> int \<Rightarrow> 'a list \<Rightarrow> 'a list" where
  "py_set_slice xs a b ys =
     (let lo = slice_bound xs a; hi = max lo (slice_bound xs b)
      in take lo xs @ ys @ drop hi xs)"

section \<open>Machine state\<close>

definition FONTSET :: "int list" where
  "FONTSET =
    [0xF0, 0x90, 0x90, 0x90, 0xF0,
     0x20, 0x60, 0x20, 0x20, 0x70,
     0xF0, 0x10, 0xF0, 0x80, 0xF0,
     0xF0, 0x10, 0xF0, 0x10, 0xF0,
     0x90, 0x90, 0xF0, 0x10, 0x10,
     0xF0, 0x80, 0xF0, 0x10, 0xF0,
     0xF0, 0x80, 0xF0, 0x90, 0xF0,
     0xF0, 0x10, 0x20, 0x40, 0x40,
     0xF0, 0x90, 0xF0, 0x90, 0xF0,
     0xF0, 0x90, 0xF0, 0x10, 0xF0,
     0xF0, 0x90, 0xF0, 0x90, 0x90,
     0xE0, 0x90, 0xE0, 0x90, 0xE0,
     0xF0, 0x80, 0x80, 0x80, 0xF0,
     0xE0, 0x90, 0x90, 0x90, 0xE0,
     0xF0, 0x80, 0xF0, 0x80, 0xF0,
     0xF0, 0x80, 0xF0, 0x80, 0x80]"

record chip8 =
  memory :: "int list"
  V :: "int list"
  I :: int
  PC :: int
  SP :: int
  stack :: "int list"
  delay_timer :: int
  sound_timer :: int
  display :: "int list list"
  keys :: "int list"
  draw_flag :: bool
  sound_flag :: bool
  waiting_for_key :: bool
  key_register :: int
  shift_quirk :: bool
  increment_i :: bool
  max_pc :: int

text \<open>\<open>for i, b in enumerate(bs): mem[base + i] = b\<close>\<close>

fun store_bytes :: "int \<Rightarrow> int list \<Rightarrow> int list \<Rightarrow> int list option" where
  "store_bytes a [] mem = Some mem"
| "store_bytes a (b # bs) mem = do { mem1 \<leftarrow> py_set mem a b; store_bytes (a + 1) bs mem1 }"

text \<open>\<open>reset\<close> assigns every attribute, so its result does not depend on the old state.\<close>

definition reset :: "chip8 option" where
  "reset = do {
     mem \<leftarrow> store_bytes 0 FONTSET (replicate 4096 0);
     Some \<lparr> memory = mem, V = replicate 16 0, I = 0, PC = 0x200, SP = 0,
            stack = replicate 16 0, delay_timer = 0, sound_timer = 0,
            display = replicate 32 (replicate 64 0), keys = replicate 16 0,
            draw_flag = False, sound_flag = False, waiting_for_key = False,
            key_register = 0, shift_quirk = True, increment_i = True,
            max_pc = 4094 \<rparr> }"

definition load_rom :: "int list \<Rightarrow> chip8 \<Rightarrow> (bool \<times> chip8) option" where
  "load_rom data s =
     (if length data > 3584 then Some (False, s)
      else do {
        s1 \<leftarrow> reset;
        mem \<leftarrow> store_bytes 0x200 data (memory s1);
        Some (True, s1\<lparr>memory := mem\<rparr>) })"

section \<open>Instructions\<close>

definition set_V :: "int \<Rightarrow> int \<Rightarrow> chip8 \<Rightarrow> chip8 option" where
  "set_V i v s = do { vs \<leftarrow> py_set (V s) i v; Some (s\<lparr>V := vs\<rparr>) }"

definition skip_if :: "bool \<Rightarrow> chip8 \<Rightarrow> chip8" where
  "skip_if c s = s\<lparr>PC := PC s + (if c then 4 else 2)\<rparr>"

text \<open>Family 8: the register-to-register operations, in the order of the source's chain.\<close>

definition alu :: "int \<Rightarrow> int \<Rightarrow> int \<Rightarrow> chip8 \<Rightarrow> chip8 option" where
  "alu n x y s =
     (if n = 0x6 then do {
        val \<leftarrow> (if shift_quirk s then py_get (V s) y else py_get (V s) x);
        s1 \<leftarrow> set_V 0xF (val AND 1) s;
        set_V x (drop_bit 1 val) s1 }
      else if n = 0xE then do {
        val \<leftarrow> (if shift_quirk s then py_get (V s) y else py_get (V s) x);
        s1 \<leftarrow> set_V 0xF (drop_bit 7 val AND 1) s;
        set_V x (push_bit 1 val AND 0xFF) s1 }
      else if n = 0x4 then do {
        vx \<leftarrow> py_get (V s) x;
        vy \<leftarrow> py_get (V s) y;
        s1 \<leftarrow> set_V x ((vx + vy) AND 0xFF) s;
        set_V 0xF (if vx + vy > 255 then 1 else 0) s1 }
      else if n = 0x5 then do {
        vx \<leftarrow> py_get (V s) x;
        vy \<leftarrow> py_get (V s) y;
        s1 \<leftarrow> set_V 0xF (if vx \<ge> vy then 1 else 0) s;
        vx1 \<leftarrow> py_get (V s1) x;
        vy1 \<leftarrow> py_get (V s1) y;
        set_V x ((vx1 - vy1) AND 0xFF) s1 }
      else if n = 0x7 then do {
        vy \<leftarrow> py_get (V s) y;
        vx \<leftarrow> py_get (V s) x;
        s1 \<leftarrow> set_V 0xF (if vy \<ge> vx then 1 else 0) s;
        vy1 \<leftarrow> py_get (V s1) y;
        vx1 \<leftarrow> py_get (V s1) x;
        set_V x ((vy1 - vx1) AND 0xFF) s1 }
      else if n = 0x0 then do {
        vy \<leftarrow> py_get (V s) y;
        set_V x vy s }
      else if n = 0x1 then do {
        vx \<leftarrow> py_get (V s) x;
        vy \<leftarrow> py_get (V s) y;
        s1 \<leftarrow> set_V x (vx OR vy) s;
        set_V 0xF 0 s1 }
      else if n = 0x2 then do {
        vx \<leftarrow> py_get (V s) x;
        vy \<leftarrow> py_get (V s) y;
        s1 \<leftarrow> set_V x (vx AND vy) s;
        set_V 0xF 0 s1 }
      else if n = 0x3 then do {
        vx \<leftarrow> py_get (V s) x;
        vy \<leftarrow> py_get (V s) y;
        s1 \<leftarrow> set_V x (vx XOR vy) s;
        set_V 0xF 0 s1 }
      else Some s)"

text \<open>
  Family D, the body of the inner loop for a set sprite bit: both coordinate registers
  are read here, after any write to register 0xF made earlier in the same blit.
\<close>

definition draw_pixel :: "int \<Rightarrow> int \<Rightarrow> int \<Rightarrow> int \<Rightarrow> chip8 \<Rightarrow> chip8 option" where
  "draw_pixel x y row col s = do {
     vx \<leftarrow> py_get (V s) x;
     vy \<leftarrow> py_get (V s) y;
     line \<leftarrow> py_get (display s) ((vy + row) mod 32);
     p \<leftarrow> py_get line ((vx + col) mod 64);
     s1 \<leftarrow> (if p \<noteq> 0 then set_V 0xF 1 s else Some s);
     line1 \<leftarrow> py_set line ((vx + col) mod 64) (p XOR 1);
     disp \<leftarrow> py_set (display s1) ((vy + row) mod 32) line1;
     Some (s1\<lparr>display := disp\<rparr>) }"

fun draw_cols :: "int \<Rightarrow> int \<Rightarrow> int \<Rightarrow> int \<Rightarrow> int list \<Rightarrow> chip8 \<Rightarrow> chip8 option" where
  "draw_cols sprite x y row [] s = Some s"
| "draw_cols sprite x y row (col # cols) s = do {
     s1 \<leftarrow> (if sprite AND drop_bit (nat col) 0x80 \<noteq> 0 then draw_pixel x y row col s
            else Some s);
     draw_cols sprite x y row cols s1 }"

fun draw_rows :: "int \<Rightarrow> int \<Rightarrow> int list \<Rightarrow> chip8 \<Rightarrow> chip8 option" where
  "draw_rows x y [] s = Some s"
| "draw_rows x y (row # rows) s = do {
     sprite \<leftarrow> py_get (memory s) (I s + row);
     s1 \<leftarrow> draw_cols sprite x y row [0..7] s;
     draw_rows x y rows s1 }"

definition draw :: "int \<Rightarrow> int \<Rightarrow> int \<Rightarrow> chip8 \<Rightarrow> chip8 option" where
  "draw n x y s = do {
     s1 \<leftarrow> set_V 0xF 0 s;
     s2 \<leftarrow> draw_rows x y [0..n - 1] s1;
     Some (s2\<lparr>draw_flag := True, PC := PC s2 + 2\<rparr>) }"

text \<open>Family E: an immediate other than 0x9E and 0xA1 changes nothing at all.\<close>

definition key_skip :: "int \<Rightarrow> int \<Rightarrow> chip8 \<Rightarrow> chip8 option" where
  "key_skip nn x s =
     (if nn = 0x9E then do {
        vx \<leftarrow> py_get (V s) x;
        k \<leftarrow> py_get (keys s) vx;
        Some (skip_if (k \<noteq> 0) s) }
      else if nn = 0xA1 then do {
        vx \<leftarrow> py_get (V s) x;
        k \<leftarrow> py_get (keys s) vx;
        Some (skip_if (\<not> k \<noteq> 0) s) }
      else Some s)"

text \<open>Family F.\<close>

fun dump_regs :: "int list \<Rightarrow> chip8 \<Rightarrow> chip8 option" where
  "dump_regs [] s = Some s"
| "dump_regs (i # is) s = do {
     v \<leftarrow> py_get (V s) i;
     mem \<leftarrow> py_set (memory s) (I s + i) v;
     dump_regs is (s\<lparr>memory := mem\<rparr>) }"

fun load_regs :: "int list \<Rightarrow> chip8 \<Rightarrow> chip8 option" where
  "load_regs [] s = Some s"
| "load_regs (i # is) s = do {
     b \<leftarrow> py_get (memory s) (I s + i);
     s1 \<leftarrow> set_V i b s;
     load_regs is s1 }"

definition misc :: "int \<Rightarrow> int \<Rightarrow> chip8 \<Rightarrow> chip8 option" where
  "misc nn x s =
     (if nn = 0x07 then set_V x (delay_timer s) s
      else if nn = 0x0A then Some (s\<lparr>waiting_for_key := True, key_register := x\<rparr>)
      else if nn = 0x15 then do {
        vx \<leftarrow> py_get (V s) x;
        Some (s\<lparr>delay_timer := vx\<rparr>) }
      else if nn = 0x18 then do {
        vx \<leftarrow> py_get (V s) x;
        Some (s\<lparr>sound_timer := vx\<rparr>) }
      else if nn = 0x1E then do {
        vx \<leftarrow> py_get (V s) x;
        Some (s\<lparr>I := I s + vx\<rparr>) }
      else if nn = 0x29 then do {
        vx \<leftarrow> py_get (V s) x;
        Some (s\<lparr>I := (vx AND 0xF) * 5\<rparr>) }
      else if nn = 0x33 then do {
        v \<leftarrow> py_get (V s) x;
        Some (s\<lparr>memory :=
                py_set_slice (memory s) (I s) (I s + 3) [v div 100, (v div 10) mod 10, v mod 10]\<rparr>) }
      else if nn = 0x55 then do {
        s1 \<leftarrow> dump_regs [0..x] s;
        Some (if increment_i s1 then s1\<lparr>I := I s1 + (x + 1)\<rparr> else s1) }
      else if nn = 0x65 then do {
        s1 \<leftarrow> load_regs [0..x] s;
        Some (if increment_i s1 then s1\<lparr>I := I s1 + (x + 1)\<rparr> else s1) }
      else Some s)"

text \<open>
  \<open>execute\<close>: the decoded fields and the dispatch chain. \<open>rnd\<close> is the value that
  \<open>random.randint(0, 255)\<close> returns when the instruction asks for one.
\<close>

definition execute :: "int \<Rightarrow> int \<Rightarrow> chip8 \<Rightarrow> chip8 option" where
  "execute rnd opcode s =
     (let nnn = opcode AND 0x0FFF;
          nn = opcode AND 0x00FF;
          n = opcode AND 0x000F;
          x = drop_bit 8 opcode AND 0xF;
          y = drop_bit 4 opcode AND 0xF;
          op = drop_bit 12 opcode
      in
      if opcode = 0x00E0 then
        Some (s\<lparr>display := replicate 32 (replicate 64 0), draw_flag := True, PC := PC s + 2\<rparr>)
      else if opcode = 0x00EE then do {
        a \<leftarrow> py_get (stack s) (SP s - 1);
        Some (s\<lparr>SP := SP s - 1, PC := a + 2\<rparr>) }
      else if op = 0x1 then Some (s\<lparr>PC := nnn\<rparr>)
      else if op = 0x2 then do {
        st \<leftarrow> py_set (stack s) (SP s) (PC s);
        Some (s\<lparr>stack := st, SP := SP s + 1, PC := nnn\<rparr>) }
      else if op = 0x3 then do {
        vx \<leftarrow> py_get (V s) x;
        Some (skip_if (vx = nn) s) }
      else if op = 0x4 then do {
        vx \<leftarrow> py_get (V s) x;
        Some (skip_if (vx \<noteq> nn) s) }
      else if op = 0x5 \<and> n = 0 then do {
        vx \<leftarrow> py_get (V s) x;
        vy \<leftarrow> py_get (V s) y;
        Some (skip_if (vx = vy) s) }
      else if op = 0x6 then do {
        s1 \<leftarrow> set_V x nn s;
        Some (s1\<lparr>PC := PC s1 + 2\<rparr>) }
      else if op = 0x7 then do {
        vx \<leftarrow> py_get (V s) x;
        s1 \<leftarrow> set_V x ((vx + nn) AND 0xFF) s;
        Some (s1\<lparr>PC := PC s1 + 2\<rparr>) }
      else if op = 0x8 then do {
        s1 \<leftarrow> alu n x y s;
        Some (s1\<lparr>PC := PC s1 + 2\<rparr>) }
      else if op = 0x9 \<and> n = 0 then do {
        vx \<leftarrow> py_get (V s) x;
        vy \<leftarrow> py_get (V s) y;
        Some (skip_if (vx \<noteq> vy) s) }
      else if op = 0xA then Some (s\<lparr>I := nnn, PC := PC s + 2\<rparr>)
      else if op = 0xB then do {
        v0 \<leftarrow> py_get (V s) 0;
        Some (s\<lparr>PC := nnn + v0\<rparr>) }
      else if op = 0xC then do {
        s1 \<leftarrow> set_V x (rnd AND nn) s;
        Some (s1\<lparr>PC := PC s1 + 2\<rparr>) }
      else if op = 0xD then draw n x y s
      else if op = 0xE then key_skip nn x s
      else if op = 0xF then do {
        s1 \<leftarrow> misc nn x s;
        Some (s1\<lparr>PC := PC s1 + 2\<rparr>) }
      else Some s)"

section \<open>Engine step, timer tick, key events\<close>

definition cycle :: "int \<Rightarrow> chip8 \<Rightarrow> chip8 option" where
  "cycle rnd s =
     (if waiting_for_key s then Some s
      else if PC s \<ge> max_pc s then Some s
      else do {
        hi \<leftarrow> py_get (memory s) (PC s);
        lo \<leftarrow> py_get (memory s) (PC s + 1);
        execute rnd (push_bit 8 hi OR lo) s })"

definition update_timers :: "chip8 \<Rightarrow> chip8" where
  "update_timers s =
     (let s1 = (if delay_timer s > 0 then s\<lparr>delay_timer := delay_timer s - 1\<rparr> else s)
      in if sound_timer s1 > 0
         then s1\<lparr>sound_timer := sound_timer s1 - 1, sound_flag := True\<rparr>
         else s1\<lparr>sound_flag := False\<rparr>)"

definition key_press :: "int \<Rightarrow> chip8 \<Rightarrow> chip8 option" where
  "key_press k s = do {
     ks \<leftarrow> py_set (keys s) k 1;
     let s1 = s\<lparr>keys := ks\<rparr>;
     if waiting_for_key s1 then do {
       s2 \<leftarrow> set_V (key_register s1) k s1;
       Some (s2\<lparr>waiting_for_key := False\<rparr>) }
     else Some s1 }"

definition key_release :: "int \<Rightarrow> chip8 \<Rightarrow> chip8 option" where
  "key_release k s = do { ks \<leftarrow> py_set (keys s) k 0; Some (s\<lparr>keys := ks\<rparr>) }"

text \<open>A run of engine steps, one random byte per step.\<close>

fun cycles :: "int list \<Rightarrow> chip8 \<Rightarrow> chip8 option" where
  "cycles [] s = Some s"
| "cycles (r # rs) s = do { s1 \<leftarrow> cycle r s; cycles rs s1 }"

section \<open>Events that reach the CPU\<close>

text \<open>The keyboard table of the source: key symbol to keypad code.\<close>

definition KEY_MAP :: "(string \<times> int) list" where
  "KEY_MAP =
    [(''1'', 0x1), (''2'', 0x2), (''3'', 0x3), (''4'', 0xC),
     (''q'', 0x4), (''w'', 0x5), (''e'', 0x6), (''r'', 0xD),
     (''a'', 0x7), (''s'', 0x8), (''d'', 0x9), (''f'', 0xE),
     (''z'', 0xA), (''x'', 0x0), (''c'', 0xB), (''v'', 0xF)]"

text \<open>
  What the emulator does to the CPU once a ROM is loaded: its loop calls \<open>cycle\<close>
  (with the random byte the step may draw), calls \<open>update_timers\<close> and clears
  \<open>draw_flag\<close> after a redraw; the key handlers call \<open>key_press\<close> and
  \<open>key_release\<close> for the key symbols that \<open>KEY_MAP\<close> knows and ignore the others.
  A key event carries the key symbol in lower case, as the handlers look it up.
\<close>

datatype event = Step int | Tick | Drawn | KeyPress string | KeyRelease string

fun apply_event :: "event \<Rightarrow> chip8 \<Rightarrow> chip8 option" where
  "apply_event (Step rnd) s = cycle rnd s"
| "apply_event Tick s = Some (update_timers s)"
| "apply_event Drawn s = Some (if draw_flag s then s\<lparr>draw_flag := False\<rparr> else s)"
| "apply_event (KeyPress keysym) s =
     (case map_of KEY_MAP keysym of None \<Rightarrow> Some s | Some k \<Rightarrow> key_press k s)"
| "apply_event (KeyRelease keysym) s =
     (case map_of KEY_MAP keysym of None \<Rightarrow> Some s | Some k \<Rightarrow> key_release k s)"

fun run :: "event list \<Rightarrow> chip8 \<Rightarrow> chip8 option" where
  "run [] s = Some s"
| "run (e # es) s = do { s1 \<leftarrow> apply_event e s; run es s1 }"

text \<open>The state that \<open>reset\<close> builds: zeroed, with the font in cells 0 to 79.\<close>

definition boot :: chip8 where
  "boot = \<lparr> memory = FONTSET @ replicate 4016 0, V = replicate 16 0, I = 0, PC = 0x200, SP = 0,
            stack = replicate 16 0, delay_timer = 0, sound_timer = 0,
            display = replicate 32 (replicate 64 0), keys = replicate 16 0,
            draw_flag = False, sound_flag = False, waiting_for_key = False,
            key_register = 0, shift_quirk = True, increment_i = True,
            max_pc = 4094 \<rparr>"

text \<open>The memory after a successful load of \<open>data\<close>: the reset memory with \<open>data\<close> at 0x200.\<close>

definition rom_memory :: "int list \<Rightarrow> int list" where
  "rom_memory data = take 512 (memory boot) @ data @ drop (512 + length data) (memory boot)"

section \<open>Invariant of the engine\<close>

text \<open>
  What every state reached from a loaded ROM satisfies: registers, memory cells and the
  delay timer hold bytes, the stack holds addresses at which an instruction was fetched
  (below the fetch guard), and the fetch guard is 4094.
\<close>

definition byte :: "int \<Rightarrow> bool" where
  "byte v \<longleftrightarrow> 0 \<le> v \<and> v \<le> 255"

definition return_address :: "int \<Rightarrow> bool" where
  "return_address a \<longleftrightarrow> 0 \<le> a \<and> a \<le> 4093"

definition state_ok :: "chip8 \<Rightarrow> bool" where
  "state_ok s \<longleftrightarrow>
     list_all byte (V s) \<and> list_all byte (memory s) \<and> byte (delay_timer s) \<and>
     list_all return_address (stack s) \<and> max_pc s = 4094"

definition ok_at :: "int \<Rightarrow> chip8 \<Rightarrow> bool" where
  "ok_at p s \<longleftrightarrow> state_ok s \<and> PC s = p"

definition in_range :: "chip8 \<Rightarrow> bool" where
  "in_range s \<longleftrightarrow> state_ok s \<and> 0 \<le> PC s \<and> PC s \<le> 0xFFF + 0xFF"

text \<open>A computation that may raise ensures \<open>Q\<close> when every result it returns satisfies \<open>Q\<close>.\<close>

definition ensures :: "'a option \<Rightarrow> ('a \<Rightarrow> bool) \<Rightarrow> bool" where
  "ensures m Q \<longleftrightarrow> (\<forall>a. m = Some a \<longrightarrow> Q a)"

named_theorems ens

section \<open>List access within bounds\<close>

lemma py_get_nat: "0 \<le> i \<Longrightarrow> i < int (length xs) \<Longrightarrow> py_get xs i = Some (xs ! nat i)"
  by (simp add: py_get_def py_index_def)

lemma py_set_nat: "0 \<le> i \<Longrightarrow> i < int (length xs) \<Longrightarrow> py_set xs i v = Some (xs[nat i := v])"
  by (simp add: py_set_def py_index_def)

lemma py_set_length: "py_set xs i v = Some ys \<Longrightarrow> length ys = length xs"
  by (auto simp: py_set_def split: option.splits)

lemma FONTSET_length: "length FONTSET = 80"
  by (simp add: FONTSET_def)

lemma nibble_range: "0 \<le> (k::int) AND 0xF \<and> k AND 0xF < 16"
proof -
  have "k AND 0xF = k mod 16"
    using take_bit_eq_mod[of 4 k] take_bit_eq_mask[of 4 k] by (simp add: mask_eq_exp_minus_1)
  then show ?thesis by simp
qed

lemma get_V_nibble:
  "length (V s) = 16 \<Longrightarrow> py_get (V s) (k AND 0xF) = Some (V s ! nat (k AND 0xF))"
  using nibble_range[of k] by (simp add: py_get_nat)

lemma set_V_nibble:
  "length (V s) = 16 \<Longrightarrow> set_V (k AND 0xF) v s = Some (s\<lparr>V := (V s)[nat (k AND 0xF) := v]\<rparr>)"
  using nibble_range[of k] by (simp add: set_V_def py_set_nat)

lemma set_V_F: "length (V s) = 16 \<Longrightarrow> set_V 0xF v s = Some (s\<lparr>V := (V s)[15 := v]\<rparr>)"
  by (simp add: set_V_def py_set_nat)

section \<open>Dispatch\<close>

lemma family_not_special:
  "drop_bit 12 opcode \<noteq> (0::int) \<Longrightarrow> opcode \<noteq> 0xE0 \<and> opcode \<noteq> 0xEE"
  by auto

lemma execute_alu:
  "drop_bit 12 opcode = 8 \<Longrightarrow>
   execute rnd opcode s = do {
     s1 \<leftarrow> alu (opcode AND 0xF) (drop_bit 8 opcode AND 0xF) (drop_bit 4 opcode AND 0xF) s;
     Some (s1\<lparr>PC := PC s1 + 2\<rparr>) }"
  using family_not_special[of opcode] by (simp add: execute_def Let_def)

lemma execute_family0:
  "drop_bit 12 opcode = 0 \<Longrightarrow> opcode \<noteq> 0xE0 \<Longrightarrow> opcode \<noteq> 0xEE \<Longrightarrow>
   execute rnd opcode s = Some s"
  by (simp add: execute_def Let_def)

lemma execute_family59:
  "drop_bit 12 opcode = 5 \<or> drop_bit 12 opcode = 9 \<Longrightarrow> opcode AND 0xF \<noteq> 0 \<Longrightarrow>
   execute rnd opcode s = Some s"
  using family_not_special[of opcode] by (elim disjE) (simp_all add: execute_def Let_def)

lemma execute_familyE:
  "drop_bit 12 opcode = 0xE \<Longrightarrow> opcode AND 0xFF \<noteq> 0x9E \<Longrightarrow> opcode AND 0xFF \<noteq> 0xA1 \<Longrightarrow>
   execute rnd opcode s = Some s"
  using family_not_special[of opcode] by (simp add: execute_def Let_def key_skip_def)

lemma execute_family8:
  "drop_bit 12 opcode = 8 \<Longrightarrow> opcode AND 0xF \<notin> {0, 1, 2, 3, 4, 5, 6, 7, 0xE} \<Longrightarrow>
   execute rnd opcode s = Some (s\<lparr>PC := PC s + 2\<rparr>)"
  using family_not_special[of opcode] by (simp add: execute_def Let_def alu_def)

lemma execute_familyF:
  "drop_bit 12 opcode = 0xF \<Longrightarrow>
   opcode AND 0xFF \<notin> {0x07, 0x0A, 0x15, 0x18, 0x1E, 0x29, 0x33, 0x55, 0x65} \<Longrightarrow>
   execute rnd opcode s = Some (s\<lparr>PC := PC s + 2\<rparr>)"
  using family_not_special[of opcode] by (simp add: execute_def Let_def misc_def)

section \<open>Add with carry\<close>

text \<open>
  C5. For the ADD instruction 8XY4, whatever the two operand registers hold and whichever
  registers X and Y are, the instruction completes and register 0xF ends as 1 when the
  sum of the two operands exceeds 255 and as 0 otherwise: the flag is written after the
  sum, so it survives even when X is 0xF.
\<close>

theorem add_carry_flag:
  assumes "length (V s) = 16" and "drop_bit 12 opcode = 8" and "opcode AND 0xF = 4"
  shows "\<exists>s'. execute rnd opcode s = Some s' \<and>
           V s' ! 15 =
             (if V s ! nat (drop_bit 8 opcode AND 0xF) + V s ! nat (drop_bit 4 opcode AND 0xF) > 255
              then 1 else 0)"
  using assms by (simp add: execute_alu alu_def get_V_nibble set_V_nibble set_V_F)

theorem add_carry_flag_witness:
  "length (V (boot\<lparr>V := [200, 100, 0, 0, 0, 0, 0, 0, 0, 0, 0, 0, 0, 0, 0, 0]\<rparr>)) = 16 \<and>
   drop_bit 12 (0x8014 :: int) = 8 \<and> (0x8014 :: int) AND 0xF = 4 \<and>
   (\<exists>s'. execute 0 0x8014 (boot\<lparr>V := [200, 100, 0, 0, 0, 0, 0, 0, 0, 0, 0, 0, 0, 0, 0, 0]\<rparr>) = Some s' \<and>
         V s' ! 15 = 1)"
  using add_carry_flag[of "boot\<lparr>V := [200, 100, 0, 0, 0, 0, 0, 0, 0, 0, 0, 0, 0, 0, 0, 0]\<rparr>" "0x8014" 0]
  by simp

section \<open>Timer tick\<close>

lemma delay_iter:
  "delay_timer ((update_timers ^^ n) s) =
     (if delay_timer s > 0 then max 0 (delay_timer s - int n) else delay_timer s)"
proof (induction n)
  case 0
  then show ?case by simp
next
  case (Suc n)
  then show ?case by (simp add: update_timers_def Let_def)
qed

text \<open>
  C2, as the claim states it, fails: with the sound timer at 1, the tick brings the timer
  to zero and still asserts the sound signal.
\<close>

theorem tick_sound_counterexample:
  "sound_timer (update_timers (boot\<lparr>sound_timer := 1\<rparr>)) = 0 \<and>
   sound_flag (update_timers (boot\<lparr>sound_timer := 1\<rparr>))"
  by (simp add: update_timers_def boot_def)

text \<open>
  C2, amended. One tick takes one off each timer that is above zero and leaves the other
  as it is; a delay timer set to 5 reads \<open>max 0 (5 - n)\<close> after \<open>n\<close> ticks, so 0 from the
  fifth tick on; and the sound signal after the tick is asserted exactly when the sound
  timer was above zero before the tick, that is, when this tick decremented it.
\<close>

theorem update_timers_tick:
  "delay_timer (update_timers s) = (if delay_timer s > 0 then delay_timer s - 1 else delay_timer s) \<and>
   sound_timer (update_timers s) = (if sound_timer s > 0 then sound_timer s - 1 else sound_timer s) \<and>
   sound_flag (update_timers s) = (sound_timer s > 0) \<and>
   delay_timer ((update_timers ^^ n) (s\<lparr>delay_timer := 5\<rparr>)) = max 0 (5 - int n)"
  by (simp add: delay_iter) (simp add: update_timers_def Let_def)

section \<open>Reset and ROM loading\<close>

lemma store_bytes_ok:
  "0 \<le> a \<Longrightarrow> a + int (length bs) \<le> int (length mem) \<Longrightarrow>
   store_bytes a bs mem = Some (take (nat a) mem @ bs @ drop (nat a + length bs) mem)"
proof (induction bs arbitrary: a mem)
  case Nil
  then show ?case by simp
next
  case (Cons b bs)
  have s: "py_set mem a b = Some (mem[nat a := b])"
    using Cons.prems by (simp add: py_set_nat)
  have n: "nat (a + 1) = Suc (nat a)" using Cons.prems by simp
  have "store_bytes (a + 1) bs (mem[nat a := b])
        = Some (take (nat (a + 1)) (mem[nat a := b]) @ bs @ drop (nat (a + 1) + length bs) (mem[nat a := b]))"
    using Cons.prems by (intro Cons.IH) auto
  also have "take (nat (a + 1)) (mem[nat a := b]) = take (nat a) mem @ [b]"
    using Cons.prems by (simp add: n take_Suc_conv_app_nth)
  also have "drop (nat (a + 1) + length bs) (mem[nat a := b]) = drop (nat a + length (b # bs)) mem"
    by (simp add: n)
  finally show ?case using s by simp
qed

lemma reset_boot: "reset = Some boot"
  by (simp add: reset_def store_bytes_ok FONTSET_length boot_def)

lemma boot_memory_length: "length (memory boot) = 4096"
  by (simp add: boot_def FONTSET_length)

lemma load_rom_ok:
  assumes "length data \<le> 3584"
  shows "load_rom data s =
           Some (True, boot\<lparr>memory := take 512 (memory boot) @ data @ drop (512 + length data) (memory boot)\<rparr>)"
  using assms by (simp add: load_rom_def reset_boot store_bytes_ok boot_memory_length)

text \<open>
  C3. \<open>load_rom\<close> never raises. For a byte sequence of at most 3584 bytes it returns True,
  and the new state is the reset state but for the memory, which holds the bytes from
  address 0x200 on and the reset contents everywhere else; the program counter is 0x200.
  For a longer sequence it returns False and the state is the one it was given.
\<close>

theorem load_rom_spec:
  "(length data \<le> 3584 \<longrightarrow>
      (\<exists>s'. load_rom data s = Some (True, s') \<and> reset = Some boot \<and>
            s' = boot\<lparr>memory := memory s'\<rparr> \<and> PC s' = 0x200 \<and>
            memory s' = take 512 (memory boot) @ data @ drop (512 + length data) (memory boot) \<and>
            length (memory s') = 4096 \<and>
            (\<forall>i < length data. memory s' ! (512 + i) = data ! i) \<and>
            (\<forall>j < 512. memory s' ! j = memory boot ! j) \<and>
            (\<forall>j < 4096. 512 + length data \<le> j \<longrightarrow> memory s' ! j = memory boot ! j))) \<and>
   (length data > 3584 \<longrightarrow> load_rom data s = Some (False, s))"
proof (intro conjI impI)
  assume len: "length data \<le> 3584"
  let ?m = "take 512 (memory boot) @ data @ drop (512 + length data) (memory boot)"
  have a: "\<forall>i < length data. ?m ! (512 + i) = data ! i"
    by (simp add: nth_append boot_memory_length)
  have b: "\<forall>j < 512. ?m ! j = memory boot ! j"
    by (simp add: nth_append boot_memory_length)
  have c: "\<forall>j < 4096. 512 + length data \<le> j \<longrightarrow> ?m ! j = memory boot ! j"
    using len by (auto simp: nth_append boot_memory_length)
  have d: "length ?m = 4096" using len by (simp add: boot_memory_length)
  have e: "PC boot = 0x200" by (simp add: boot_def)
  show "\<exists>s'. load_rom data s = Some (True, s') \<and> reset = Some boot \<and>
            s' = boot\<lparr>memory := memory s'\<rparr> \<and> PC s' = 0x200 \<and>
            memory s' = ?m \<and>
            length (memory s') = 4096 \<and>
            (\<forall>i < length data. memory s' ! (512 + i) = data ! i) \<and>
            (\<forall>j < 512. memory s' ! j = memory boot ! j) \<and>
            (\<forall>j < 4096. 512 + length data \<le> j \<longrightarrow> memory s' ! j = memory boot ! j)"
    using a b c d e by (simp add: load_rom_ok[OF len] reset_boot)
next
  assume "length data > 3584"
  then show "load_rom data s = Some (False, s)" by (simp add: load_rom_def)
qed

theorem load_rom_spec_witness:
  "length [0x12, 0x34 :: int] \<le> 3584 \<and>
   (\<exists>s'. load_rom [0x12, 0x34] (boot\<lparr>PC := 0x300\<rparr>) = Some (True, s') \<and> PC s' = 0x200 \<and>
         memory s' ! 512 = 0x12 \<and> memory s' ! 513 = 0x34) \<and>
   length (replicate 3585 (0 :: int)) > 3584 \<and>
   load_rom (replicate 3585 0) (boot\<lparr>PC := 0x300\<rparr>) = Some (False, boot\<lparr>PC := 0x300\<rparr>)"
proof -
  obtain s' where s: "load_rom [0x12, 0x34] (boot\<lparr>PC := 0x300\<rparr>) = Some (True, s')"
      "PC s' = 0x200" "\<forall>i < length [0x12, 0x34 :: int]. memory s' ! (512 + i) = [0x12, 0x34] ! i"
    using load_rom_spec[of "[0x12, 0x34]" "boot\<lparr>PC := 0x300\<rparr>"] by auto
  have "memory s' ! 512 = 0x12 \<and> memory s' ! 513 = 0x34"
    using s(3)[rule_format, of 0] s(3)[rule_format, of 1] by simp
  moreover have "load_rom (replicate 3585 0) (boot\<lparr>PC := 0x300\<rparr>) = Some (False, boot\<lparr>PC := 0x300\<rparr>)"
    using load_rom_spec[of "replicate 3585 0" "boot\<lparr>PC := 0x300\<rparr>"] by simp
  ultimately show ?thesis using s(1,2) by simp
qed

section \<open>Waiting for a key\<close>

lemma cycles_waiting: "waiting_for_key s \<Longrightarrow> cycles rs s = Some s"
  by (induction rs) (simp_all add: cycle_def)

text \<open>
  C6. While the machine waits for a key, an engine step, and so any run of engine steps,
  returns the state it was given. A key press with a key code 0 to 15 then marks the key
  as down, stores the code in the register that the wait recorded and ends the wait,
  leaving everything else as it was.
\<close>

theorem key_wait_blocks:
  assumes "waiting_for_key s" and "length (keys s) = 16" and "length (V s) = 16"
    and "0 \<le> k" and "k < 16" and "0 \<le> key_register s" and "key_register s < 16"
  shows "cycle rnd s = Some s \<and> cycles rs s = Some s \<and>
         key_press k s = Some (s\<lparr>keys := (keys s)[nat k := 1],
                                  V := (V s)[nat (key_register s) := k],
                                  waiting_for_key := False\<rparr>)"
  using assms by (simp add: cycles_waiting cycle_def key_press_def set_V_def py_set_nat)


theorem key_wait_blocks_witness:
  "waiting_for_key (boot\<lparr>waiting_for_key := True, key_register := 3\<rparr>) \<and>
   length (keys (boot\<lparr>waiting_for_key := True, key_register := 3\<rparr>)) = 16 \<and>
   length (V (boot\<lparr>waiting_for_key := True, key_register := 3\<rparr>)) = 16 \<and>
   (0 :: int) \<le> 7 \<and> (7 :: int) < 16 \<and>
   0 \<le> key_register (boot\<lparr>waiting_for_key := True, key_register := 3\<rparr>) \<and>
   key_register (boot\<lparr>waiting_for_key := True, key_register := 3\<rparr>) < 16 \<and>
   cycles [0, 0, 0] (boot\<lparr>waiting_for_key := True, key_register := 3\<rparr>)
     = Some (boot\<lparr>waiting_for_key := True, key_register := 3\<rparr>) \<and>
   (\<exists>s'. key_press 7 (boot\<lparr>waiting_for_key := True, key_register := 3\<rparr>) = Some s' \<and>
         \<not> waiting_for_key s' \<and> V s' ! 3 = 7 \<and> keys s' ! 7 = 1 \<and> PC s' = 0x200)"
proof -
  let ?s = "boot\<lparr>waiting_for_key := True, key_register := 3\<rparr>"
  have h: "waiting_for_key ?s" "length (keys ?s) = 16" "length (V ?s) = 16"
    "(0 :: int) \<le> 7" "(7 :: int) < 16" "0 \<le> key_register ?s" "key_register ?s < 16"
    by (simp_all add: boot_def)
  have v: "V ?s = replicate 16 0" "keys ?s = replicate 16 0" "PC boot = 0x200"
    by (simp_all add: boot_def)
  show ?thesis
    using h key_wait_blocks[OF h, of 0 "[0, 0, 0]"] by (simp add: v)
qed

section \<open>Unrecognised opcodes\<close>

lemma cycle_family0:
  assumes "py_get (memory s) (PC s) = Some hi" and "py_get (memory s) (PC s + 1) = Some lo"
    and "drop_bit 12 (push_bit 8 hi OR lo) = 0"
    and "push_bit 8 hi OR lo \<noteq> 0xE0" and "push_bit 8 hi OR lo \<noteq> 0xEE"
  shows "cycle rnd s = Some s"
  using assms by (simp add: cycle_def execute_family0)

lemma cycles_family0:
  assumes "py_get (memory s) (PC s) = Some hi" and "py_get (memory s) (PC s + 1) = Some lo"
    and "drop_bit 12 (push_bit 8 hi OR lo) = 0"
    and "push_bit 8 hi OR lo \<noteq> 0xE0" and "push_bit 8 hi OR lo \<noteq> 0xEE"
  shows "cycles rs s = Some s"
  by (induction rs) (simp_all add: cycle_family0[OF assms])

lemma boot_fetch:
  "py_get (memory boot) (PC boot) = Some 0 \<and> py_get (memory boot) (PC boot + 1) = Some 0"
  by (simp add: boot_def py_get_nat FONTSET_length nth_append)

text \<open>
  C10, as the claim states it, fails in its last part: 0x5001 is an unrecognised opcode
  of another family (5XYN with N non-zero), and executing it returns the state unchanged;
  the program counter does not advance by 2.
\<close>

theorem unrecognised_5001_counterexample:
  "execute 0 0x5001 boot = Some boot \<and>
   execute 0 0x5001 boot \<noteq> Some (boot\<lparr>PC := PC boot + 2\<rparr>)"
proof -
  have a: "execute 0 0x5001 boot = Some boot"
    by (simp add: execute_def Let_def)
  have "PC (boot\<lparr>PC := PC boot + 2\<rparr>) \<noteq> PC boot" by simp
  then have "boot\<lparr>PC := PC boot + 2\<rparr> \<noteq> boot" by metis
  then show ?thesis using a by simp
qed

text \<open>
  C10, amended. An opcode whose high nibble is 0, other than 0x00E0 and 0x00EE, leaves the
  whole state unchanged, program counter included, so any run of engine steps that
  fetches such an opcode returns the state it started from. The same holds for the
  unrecognised opcodes of families 5 and 9 (low nibble not 0) and of family E (low byte
  neither 0x9E nor 0xA1). Only the unrecognised opcodes of families 8 and F advance the
  program counter by 2, and they change nothing else.
\<close>

theorem unrecognised_opcodes:
  "(drop_bit 12 opz = 0 \<and> opz \<noteq> 0xE0 \<and> opz \<noteq> 0xEE \<longrightarrow> execute rnd opz s = Some s) \<and>
   (py_get (memory s) (PC s) = Some hi \<and> py_get (memory s) (PC s + 1) = Some lo \<and>
    drop_bit 12 (push_bit 8 hi OR lo) = 0 \<and>
    push_bit 8 hi OR lo \<noteq> 0xE0 \<and> push_bit 8 hi OR lo \<noteq> 0xEE \<longrightarrow> cycles rs s = Some s) \<and>
   ((drop_bit 12 opc = 5 \<or> drop_bit 12 opc = 9) \<and> opc AND 0xF \<noteq> 0 \<longrightarrow>
      execute rnd opc s = Some s) \<and>
   (drop_bit 12 opk = 0xE \<and> opk AND 0xFF \<noteq> 0x9E \<and> opk AND 0xFF \<noteq> 0xA1 \<longrightarrow>
      execute rnd opk s = Some s) \<and>
   (drop_bit 12 opa = 8 \<and> opa AND 0xF \<notin> {0, 1, 2, 3, 4, 5, 6, 7, 0xE} \<longrightarrow>
      execute rnd opa s = Some (s\<lparr>PC := PC s + 2\<rparr>)) \<and>
   (drop_bit 12 opm = 0xF \<and>
    opm AND 0xFF \<notin> {0x07, 0x0A, 0x15, 0x18, 0x1E, 0x29, 0x33, 0x55, 0x65} \<longrightarrow>
      execute rnd opm s = Some (s\<lparr>PC := PC s + 2\<rparr>))"
proof (intro conjI impI)
  assume "py_get (memory s) (PC s) = Some hi \<and> py_get (memory s) (PC s + 1) = Some lo \<and>
    drop_bit 12 (push_bit 8 hi OR lo) = 0 \<and>
    push_bit 8 hi OR lo \<noteq> 0xE0 \<and> push_bit 8 hi OR lo \<noteq> 0xEE"
  then show "cycles rs s = Some s" by (intro cycles_family0[of s hi lo]) simp_all
qed (simp_all add: execute_family0 execute_family59 execute_familyE execute_family8 execute_familyF)

theorem unrecognised_opcodes_witness:
  "drop_bit 12 (0 :: int) = 0 \<and> (0 :: int) \<noteq> 0xE0 \<and> (0 :: int) \<noteq> 0xEE \<and>
   execute 0 0 boot = Some boot \<and>
   py_get (memory boot) (PC boot) = Some 0 \<and> py_get (memory boot) (PC boot + 1) = Some 0 \<and>
   drop_bit 12 (push_bit 8 0 OR (0 :: int)) = 0 \<and> cycles [0, 0, 0] boot = Some boot \<and>
   drop_bit 12 (0x5001 :: int) = 5 \<and> (0x5001 :: int) AND 0xF \<noteq> 0 \<and>
   execute 0 0x5001 boot = Some boot \<and>
   drop_bit 12 (0xE000 :: int) = 0xE \<and> (0xE000 :: int) AND 0xFF \<noteq> 0x9E \<and>
   (0xE000 :: int) AND 0xFF \<noteq> 0xA1 \<and> execute 0 0xE000 boot = Some boot \<and>
   drop_bit 12 (0x8008 :: int) = 8 \<and> (0x8008 :: int) AND 0xF \<notin> {0, 1, 2, 3, 4, 5, 6, 7, 0xE} \<and>
   execute 0 0x8008 boot = Some (boot\<lparr>PC := PC boot + 2\<rparr>) \<and>
   drop_bit 12 (0xF000 :: int) = 0xF \<and>
   (0xF000 :: int) AND 0xFF \<notin> {0x07, 0x0A, 0x15, 0x18, 0x1E, 0x29, 0x33, 0x55, 0x65} \<and>
   execute 0 0xF000 boot = Some (boot\<lparr>PC := PC boot + 2\<rparr>)"
  using unrecognised_opcodes[of 0 0 boot 0 0 "[0, 0, 0]" "0x5001" "0xE000" "0x8008" "0xF000"]
    boot_fetch
  by simp

section \<open>Programs run from a loaded ROM\<close>

lemma boot_fields:
  "V boot = replicate 16 0" "PC boot = 0x200" "I boot = 0" "\<not> waiting_for_key boot"
  "max_pc boot = 4094" "display boot = replicate 32 (replicate 64 0)" "increment_i boot"
  "SP boot = 0" "stack boot = replicate 16 0" "keys boot = replicate 16 0" "shift_quirk boot"
  by (simp_all add: boot_def)

text \<open>Reads from the memory that a successful load leaves.\<close>

lemma loaded_rom_byte:
  assumes "length data \<le> 3584" and "i < length data"
  shows "py_get (take 512 (memory boot) @ data @ drop (512 + length data) (memory boot)) (512 + int i)
           = Some (data ! i)"
proof -
  let ?m = "take 512 (memory boot) @ data @ drop (512 + length data) (memory boot)"
  have "length ?m = 4096" using assms by (simp add: boot_memory_length)
  moreover have "?m ! (512 + i) = data ! i" using assms by (simp add: nth_append boot_memory_length)
  moreover have "nat (512 + int i) = 512 + i" by simp
  ultimately show ?thesis using assms by (simp add: py_get_nat del: length_append)
qed

lemma py_set_slice_length:
  "0 \<le> a \<Longrightarrow> a \<le> b \<Longrightarrow>
   length (py_set_slice xs a b ys) + min (nat b) (length xs) = min (nat a) (length xs) + length ys + length xs"
proof -
  assume "0 \<le> a" and "a \<le> b"
  then have "nat a \<le> nat b" and "\<not> a < 0" and "\<not> b < 0" by simp_all
  then show ?thesis
    by (simp add: py_set_slice_def slice_bound_def Let_def max_def min_def)
qed

lemma py_get_nibble: "length xs = 16 \<Longrightarrow> py_get xs (k AND 0xF) = Some (xs ! nat (k AND 0xF))"
  using nibble_range[of k] by (simp add: py_get_nat)

lemma py_set_nibble: "length xs = 16 \<Longrightarrow> py_set xs (k AND 0xF) v = Some (xs[nat (k AND 0xF) := v])"
  using nibble_range[of k] by (simp add: py_set_nat)

lemma upto_0_7: "[0..7] = [0, 1, 2, 3, 4, 5, 6, 7 :: int]"
  by code_simp

lemma upto_0_1: "[0..1] = [0, 1 :: int]"
  by code_simp

lemma upto_0_0: "[0..0] = [0 :: int]"
  by code_simp

lemma boot_memory_top: "memory boot ! 4095 = 0"
  by (simp add: boot_def nth_append FONTSET_length)

lemma boot_memory_font0: "memory boot ! 0 = 0xF0"
  by (simp add: boot_def nth_append FONTSET_def)

lemma load_rom_memory:
  "length data \<le> 3584 \<Longrightarrow> load_rom data s = Some (True, boot\<lparr>memory := rom_memory data\<rparr>)"
  by (simp add: load_rom_ok rom_memory_def)

lemma rom_memory_length: "length data \<le> 3584 \<Longrightarrow> length (rom_memory data) = 4096"
  by (simp add: rom_memory_def boot_memory_length)

lemma rom_memory_byte:
  "length data \<le> 3584 \<Longrightarrow> i < length data \<Longrightarrow>
   py_get (rom_memory data) (512 + int i) = Some (data ! i)"
  unfolding rom_memory_def by (rule loaded_rom_byte)

lemma rom_memory_low:
  "length data \<le> 3584 \<Longrightarrow> j < 512 \<Longrightarrow> py_get (rom_memory data) (int j) = Some (memory boot ! j)"
  using rom_memory_length[of data]
  by (simp add: py_get_nat) (simp add: rom_memory_def nth_append boot_memory_length)

lemma rom_memory_high:
  "length data \<le> 3584 \<Longrightarrow> 512 + length data \<le> j \<Longrightarrow> j < 4096 \<Longrightarrow>
   py_get (rom_memory data) (int j) = Some (memory boot ! j)"
  using rom_memory_length[of data]
  by (simp add: py_get_nat) (auto simp: rom_memory_def nth_append boot_memory_length)

lemma rom_memory_beyond:
  "length data \<le> 3584 \<Longrightarrow> py_get (rom_memory data) 4096 = None"
  using rom_memory_length[of data] by (simp add: py_get_def py_index_def)

lemma draw_cols_blank: "draw_cols 0 x y row cols s = Some s"
  by (induction cols arbitrary: s) simp_all

section \<open>Subtraction flags\<close>

text \<open>
  C1. After SUB (8XY5) and reverse SUB (8XY7) register 0xF should hold 1 when the minuend
  is at least the subtrahend and 0 otherwise, for every destination register X. Both
  instructions write the flag first and the difference second, so with X = 0xF the
  difference replaces the flag. With VF = 5 and V1 = 3: 8F15 has minuend 5 and
  subtrahend 3 and would end with VF = 1, and ends with VF = (1 - 3) mod 256 = 254;
  8F17 has minuend 3 and subtrahend 5 and would end with VF = 0, and ends with VF = 3.
\<close>

theorem sub_flag_overwritten:
  "map_option (\<lambda>s. V s ! 15)
     (execute 0 0x8F15 (boot\<lparr>V := [0, 3, 0, 0, 0, 0, 0, 0, 0, 0, 0, 0, 0, 0, 0, 5]\<rparr>)) = Some 254 \<and>
   map_option (\<lambda>s. V s ! 15)
     (execute 0 0x8F17 (boot\<lparr>V := [0, 3, 0, 0, 0, 0, 0, 0, 0, 0, 0, 0, 0, 0, 0, 5]\<rparr>)) = Some 3"
  by (simp add: execute_alu alu_def py_get_nat set_V_def py_set_nat)

text \<open>For any other destination register the flag of SUB is the one the claim states.\<close>

lemma sub_flag_other_registers:
  assumes "length (V s) = 16" and "drop_bit 12 opcode = 8"
    and "opcode AND 0xF = 5" and "drop_bit 8 opcode AND 0xF \<noteq> 0xF"
  shows "\<exists>s'. execute rnd opcode s = Some s' \<and>
           V s' ! 15 =
             (if V s ! nat (drop_bit 8 opcode AND 0xF) \<ge> V s ! nat (drop_bit 4 opcode AND 0xF)
              then 1 else 0)"
proof -
  have "nat (drop_bit 8 opcode AND 0xF) \<noteq> 15"
    using assms(4) nibble_range[of "drop_bit 8 opcode"] by auto
  then show ?thesis
    using assms(1-3)
    by (simp add: execute_alu alu_def py_get_nibble set_V_def py_set_nibble py_set_nat)
qed

section \<open>Memory size\<close>

text \<open>
  C9. Memory should keep its 4096 cells under every operation. Store-BCD (FX33) assigns
  to the slice \<open>memory[I:I+3]\<close>; a slice that reaches past the end is clamped and the
  three digits are inserted all the same. The ROM AF FF F0 33 sets the index register to
  0xFFF and stores the digits of V0 there: both steps complete, and memory has 4098
  cells afterwards.
\<close>

theorem bcd_grows_memory:
  "(load_rom [0xAF, 0xFF, 0xF0, 0x33] boot \<bind> (\<lambda>(ok, s). cycles [0, 0] s)
      \<bind> (\<lambda>s. Some (I s, length (memory s)))) = Some (0xFFF, 4098)"
proof -
  define m where "m = take 512 (memory boot) @ [0xAF, 0xFF, 0xF0, 0x33] @ drop 516 (memory boot)"
  have load: "load_rom [0xAF, 0xFF, 0xF0, 0x33] boot = Some (True, boot\<lparr>memory := m\<rparr>)"
    by (simp add: load_rom_ok m_def)
  have len: "length m = 4096" by (simp add: m_def boot_memory_length)
  have bytes: "py_get m 512 = Some 0xAF" "py_get m 513 = Some 0xFF"
    "py_get m 514 = Some 0xF0" "py_get m 515 = Some 0x33"
    using loaded_rom_byte[of "[0xAF, 0xFF, 0xF0, 0x33]" 0]
      loaded_rom_byte[of "[0xAF, 0xFF, 0xF0, 0x33]" 1]
      loaded_rom_byte[of "[0xAF, 0xFF, 0xF0, 0x33]" 2]
      loaded_rom_byte[of "[0xAF, 0xFF, 0xF0, 0x33]" 3]
    by (simp_all add: m_def)
  have grow: "length (py_set_slice m 4095 4098 [0, 0, 0 :: int]) = 4098"
    using py_set_slice_length[of 4095 4098 m "[0, 0, 0]"] by (simp add: len)
  show ?thesis
    by (simp add: load cycle_def execute_def Let_def misc_def boot_fields bytes py_get_nat grow)
qed

section \<open>Index register past the end of memory\<close>

text \<open>
  C7. No instruction should raise, whatever the index register holds. The ROM AF FF D0 02
  sets the index register to 0xFFF (the first step completes, with memory still at 4096
  cells) and then draws a sprite of two rows: the second row is read from cell 4096
  and the step raises IndexError. Register dump (F155) and register load (F165) with the
  index register at 0xFFF raise in the same way, on their second register.
\<close>

theorem index_past_memory_raises:
  "(load_rom [0xAF, 0xFF, 0xD0, 0x02] boot \<bind> (\<lambda>(ok, s). cycles [0] s)
      \<bind> (\<lambda>s. Some (I s, PC s, length (memory s)))) = Some (0xFFF, 0x202, 4096) \<and>
   (load_rom [0xAF, 0xFF, 0xD0, 0x02] boot \<bind> (\<lambda>(ok, s). cycles [0, 0] s)) = None \<and>
   (load_rom [0xAF, 0xFF, 0xF1, 0x55] boot \<bind> (\<lambda>(ok, s). cycles [0, 0] s)) = None \<and>
   (load_rom [0xAF, 0xFF, 0xF1, 0x65] boot \<bind> (\<lambda>(ok, s). cycles [0, 0] s)) = None"
proof -
  have bytes: "py_get (rom_memory [a, b, c, d]) 512 = Some a"
    "py_get (rom_memory [a, b, c, d]) 513 = Some b"
    "py_get (rom_memory [a, b, c, d]) 514 = Some c"
    "py_get (rom_memory [a, b, c, d]) 515 = Some d"
    "py_get (rom_memory [a, b, c, d]) 4095 = Some 0"
    "py_get (rom_memory [a, b, c, d]) 4096 = None"
    "length (rom_memory [a, b, c, d]) = 4096" for a b c d
    using rom_memory_byte[of "[a, b, c, d]" 0] rom_memory_byte[of "[a, b, c, d]" 1]
      rom_memory_byte[of "[a, b, c, d]" 2] rom_memory_byte[of "[a, b, c, d]" 3]
      rom_memory_high[of "[a, b, c, d]" 4095] rom_memory_beyond[of "[a, b, c, d]"]
      rom_memory_length[of "[a, b, c, d]"]
    by (simp_all add: boot_memory_top)
  have a: "(load_rom [0xAF, 0xFF, 0xD0, 0x02] boot \<bind> (\<lambda>(ok, s). cycles [0] s)
      \<bind> (\<lambda>s. Some (I s, PC s, length (memory s)))) = Some (0xFFF, 0x202, 4096)"
    by (simp add: load_rom_memory cycle_def execute_def Let_def boot_fields bytes)
  have b: "(load_rom [0xAF, 0xFF, 0xD0, 0x02] boot \<bind> (\<lambda>(ok, s). cycles [0, 0] s)) = None"
    by (simp add: load_rom_memory cycle_def execute_def Let_def boot_fields bytes
        draw_def set_V_def py_set_nat upto_0_1 draw_cols_blank)
  have c: "(load_rom [0xAF, 0xFF, 0xF1, 0x55] boot \<bind> (\<lambda>(ok, s). cycles [0, 0] s)) = None"
    by (simp add: load_rom_memory cycle_def execute_def Let_def boot_fields bytes
        misc_def upto_0_1 py_get_nat py_set_nat py_set_def py_index_def)
  have d: "(load_rom [0xAF, 0xFF, 0xF1, 0x65] boot \<bind> (\<lambda>(ok, s). cycles [0, 0] s)) = None"
    by (simp add: load_rom_memory cycle_def execute_def Let_def boot_fields bytes
        misc_def upto_0_1 set_V_def py_get_nat py_set_nat)
  show ?thesis using a b c d by simp
qed

section \<open>Drawing a sprite twice\<close>

text \<open>
  C4. Drawing the same sprite twice at the same coordinates should restore the
  framebuffer. The ROM DF 01 DF 01 draws one row of the font glyph at address 0 (0xF0,
  four pixels) at column VF, row V0, twice. The screen starts blank. The first draw
  sets pixels 0 to 3 of row 0 and leaves VF = 0. The second draw starts at column 0
  again, but its first collision sets VF to 1 and the coordinate is read again for each
  pixel, so the three pixels that follow go to columns 2, 3 and 4: row 0 ends with
  pixels 1 and 4 on, not blank.
\<close>

theorem draw_twice_not_restored:
  "display boot = replicate 32 (replicate 64 0) \<and>
   (load_rom [0xDF, 0x01, 0xDF, 0x01] boot \<bind> (\<lambda>(ok, s). cycles [0] s)
      \<bind> (\<lambda>s. Some (map (\<lambda>c. display s ! 0 ! c) [0, 1, 2, 3, 4], V s ! 15)))
     = Some ([1, 1, 1, 1, 0], 0) \<and>
   (load_rom [0xDF, 0x01, 0xDF, 0x01] boot \<bind> (\<lambda>(ok, s). cycles [0, 0] s)
      \<bind> (\<lambda>s. Some (map (\<lambda>c. display s ! 0 ! c) [0, 1, 2, 3, 4], V s ! 15)))
     = Some ([0, 1, 0, 0, 1], 1)"
proof -
  have bytes: "py_get (rom_memory [a, b, c, d]) 512 = Some a"
    "py_get (rom_memory [a, b, c, d]) 513 = Some b"
    "py_get (rom_memory [a, b, c, d]) 514 = Some c"
    "py_get (rom_memory [a, b, c, d]) 515 = Some d"
    "py_get (rom_memory [a, b, c, d]) 0 = Some 0xF0" for a b c d
    using rom_memory_byte[of "[a, b, c, d]" 0] rom_memory_byte[of "[a, b, c, d]" 1]
      rom_memory_byte[of "[a, b, c, d]" 2] rom_memory_byte[of "[a, b, c, d]" 3]
      rom_memory_low[of "[a, b, c, d]" 0]
    by (simp_all add: boot_memory_font0)
  have a: "(load_rom [0xDF, 0x01, 0xDF, 0x01] boot \<bind> (\<lambda>(ok, s). cycles [0] s)
      \<bind> (\<lambda>s. Some (map (\<lambda>c. display s ! 0 ! c) [0, 1, 2, 3, 4], V s ! 15)))
     = Some ([1, 1, 1, 1, 0], 0)"
    by (simp add: load_rom_memory cycle_def execute_def Let_def boot_fields bytes
        draw_def draw_pixel_def set_V_def py_get_nat py_set_nat upto_0_0 upto_0_7)
  have b: "(load_rom [0xDF, 0x01, 0xDF, 0x01] boot \<bind> (\<lambda>(ok, s). cycles [0, 0] s)
      \<bind> (\<lambda>s. Some (map (\<lambda>c. display s ! 0 ! c) [0, 1, 2, 3, 4], V s ! 15)))
     = Some ([0, 1, 0, 0, 1], 1)"
    by (simp add: load_rom_memory cycle_def execute_def Let_def boot_fields bytes
        draw_def draw_pixel_def set_V_def py_get_nat py_set_nat upto_0_0 upto_0_7)
  show ?thesis using a b by (simp add: boot_fields)
qed

section \<open>Program counter range\<close>

lemma py_get_all: "list_all P xs \<Longrightarrow> py_get xs i = Some v \<Longrightarrow> P v"
  by (auto simp: py_get_def py_index_def list_all_length split: if_splits)

lemma py_set_all: "list_all P xs \<Longrightarrow> P v \<Longrightarrow> py_set xs i v = Some ys \<Longrightarrow> list_all P ys"
  by (auto simp: py_set_def py_index_def list_all_length nth_list_update split: if_splits)

lemma py_set_slice_all: "list_all P xs \<Longrightarrow> list_all P ys \<Longrightarrow> list_all P (py_set_slice xs a b ys)"
  by (auto simp: py_set_slice_def Let_def list_all_iff dest: in_set_takeD in_set_dropD)

lemma byte_and: "byte (a AND 0xFF)" "byte (a AND 1)" "byte b \<Longrightarrow> byte (a AND b)" "byte b \<Longrightarrow> byte (b AND a)"
  by (auto simp: byte_def intro: order_trans[OF AND_upper2] order_trans[OF AND_upper1])

lemma byte_or: "byte a \<Longrightarrow> byte b \<Longrightarrow> byte (a OR b)"
  using OR_upper[of a 8 b] by (simp add: byte_def)

lemma byte_xor: "byte a \<Longrightarrow> byte b \<Longrightarrow> byte (a XOR b)"
  using XOR_upper[of a 8 b] by (simp add: byte_def)

lemma byte_shift: "byte a \<Longrightarrow> byte (drop_bit 1 a)"
  unfolding byte_def drop_bit_eq_div by simp linarith

lemma byte_consts: "byte 0" "byte 1"
  by (simp_all add: byte_def)

lemma byte_digits: "byte v \<Longrightarrow> byte (v div 100)" "byte v \<Longrightarrow> byte (v div 10 mod 10)" "byte (v mod 10)"
  by (auto simp: byte_def)

lemmas byte_intros = byte_and byte_or byte_xor byte_shift byte_consts byte_digits

lemma state_ok_frame [simp]:
  "state_ok (s\<lparr>PC := p\<rparr>) = state_ok s" "state_ok (s\<lparr>I := i\<rparr>) = state_ok s"
  "state_ok (s\<lparr>SP := sp\<rparr>) = state_ok s" "state_ok (s\<lparr>display := d\<rparr>) = state_ok s"
  "state_ok (s\<lparr>draw_flag := b\<rparr>) = state_ok s" "state_ok (s\<lparr>sound_timer := t\<rparr>) = state_ok s"
  "state_ok (s\<lparr>waiting_for_key := b\<rparr>) = state_ok s" "state_ok (s\<lparr>key_register := k\<rparr>) = state_ok s"
  "state_ok (s\<lparr>keys := ks\<rparr>) = state_ok s" "state_ok (s\<lparr>sound_flag := b\<rparr>) = state_ok s"
  by (simp_all add: state_ok_def)

lemma ens_Some [ens]: "Q a \<Longrightarrow> ensures (Some a) Q"
  by (simp add: ensures_def)

lemma ens_bind [ens]: "ensures m (\<lambda>a. ensures (f a) Q) \<Longrightarrow> ensures (m \<bind> f) Q"
  by (auto simp: ensures_def split: bind_splits)

lemma ens_if [ens]:
  "(c \<Longrightarrow> ensures a Q) \<Longrightarrow> (\<not> c \<Longrightarrow> ensures b Q) \<Longrightarrow> ensures (if c then a else b) Q"
  by simp

lemma ens_mono: "ensures m P \<Longrightarrow> (\<And>a. P a \<Longrightarrow> Q a) \<Longrightarrow> ensures m Q"
  by (simp add: ensures_def)

lemma ens_get_V [ens]: "ok_at p s \<Longrightarrow> (\<And>v. byte v \<Longrightarrow> Q v) \<Longrightarrow> ensures (py_get (V s) i) Q"
  by (auto simp: ensures_def ok_at_def state_ok_def dest: py_get_all)

lemma ens_get_memory [ens]:
  "ok_at p s \<Longrightarrow> (\<And>v. byte v \<Longrightarrow> Q v) \<Longrightarrow> ensures (py_get (memory s) i) Q"
  by (auto simp: ensures_def ok_at_def state_ok_def dest: py_get_all)

lemma ens_get_stack [ens]:
  "ok_at p s \<Longrightarrow> (\<And>a. return_address a \<Longrightarrow> Q a) \<Longrightarrow> ensures (py_get (stack s) i) Q"
  by (auto simp: ensures_def ok_at_def state_ok_def dest: py_get_all)

lemma ens_set_V [ens]:
  "ok_at p s \<Longrightarrow> byte v \<Longrightarrow> (\<And>s'. ok_at p s' \<Longrightarrow> Q s') \<Longrightarrow> ensures (set_V i v s) Q"
  by (auto simp: ensures_def set_V_def ok_at_def state_ok_def split: bind_splits dest: py_set_all)

lemma alu_ok: "ok_at p s \<Longrightarrow> ensures (alu n x y s) (ok_at p)"
  unfolding alu_def
  by (intro ens conjI impI byte_intros | assumption | simp)+

lemma ok_at_frame [simp]:
  "ok_at p (s\<lparr>I := i\<rparr>) = ok_at p s" "ok_at p (s\<lparr>SP := sp\<rparr>) = ok_at p s"
  "ok_at p (s\<lparr>display := d\<rparr>) = ok_at p s" "ok_at p (s\<lparr>draw_flag := b\<rparr>) = ok_at p s"
  "ok_at p (s\<lparr>sound_timer := t\<rparr>) = ok_at p s" "ok_at p (s\<lparr>waiting_for_key := b\<rparr>) = ok_at p s"
  "ok_at p (s\<lparr>key_register := k\<rparr>) = ok_at p s"
  by (simp_all add: ok_at_def)

lemma set_V_ok_at: "ok_at p s \<Longrightarrow> byte v \<Longrightarrow> set_V i v s = Some s' \<Longrightarrow> ok_at p s'"
  by (auto simp: set_V_def ok_at_def state_ok_def split: bind_splits dest: py_set_all)

lemma draw_pixel_ok: "ok_at p s \<Longrightarrow> ensures (draw_pixel x y row col s) (ok_at p)"
  by (auto simp: ensures_def draw_pixel_def split: bind_splits if_splits
      dest: set_V_ok_at[OF _ byte_consts(2)])

lemma draw_cols_ok: "ok_at p s \<Longrightarrow> ensures (draw_cols sprite x y row cols s) (ok_at p)"
proof (induction cols arbitrary: s)
  case Nil
  then show ?case by (simp add: ens_Some)
next
  case (Cons col cols)
  have "ensures (if sprite AND drop_bit (nat col) 0x80 \<noteq> 0 then draw_pixel x y row col s else Some s)
          (\<lambda>s1. ensures (draw_cols sprite x y row cols s1) (ok_at p))"
    using Cons.prems
    by (intro ens_if ens_Some ens_mono[OF draw_pixel_ok[of p s]]) (simp_all add: Cons.IH)
  then show ?case by (simp add: ens_bind)
qed

lemma draw_rows_ok: "ok_at p s \<Longrightarrow> ensures (draw_rows x y rows s) (ok_at p)"
proof (induction rows arbitrary: s)
  case Nil
  then show ?case by (simp add: ens_Some)
next
  case (Cons row rows)
  have "ensures (draw_cols sprite x y row [0..7] s) (\<lambda>s1. ensures (draw_rows x y rows s1) (ok_at p))"
    for sprite
    using Cons.prems by (intro ens_mono[OF draw_cols_ok[of p s]]) (simp_all add: Cons.IH)
  then show ?case
    by (simp add: ensures_def split: bind_splits)
qed

lemma draw_ok: "ok_at p s \<Longrightarrow> ensures (draw n x y s) (ok_at (p + 2))"
proof -
  assume ok: "ok_at p s"
  have "ensures (draw_rows x y [0..n - 1] s1)
          (\<lambda>s2. ensures (Some (s2\<lparr>draw_flag := True, PC := PC s2 + 2\<rparr>)) (ok_at (p + 2)))"
    if "ok_at p s1" for s1
    using that by (intro ens_mono[OF draw_rows_ok[of p s1]]) (simp_all add: ensures_def ok_at_def)
  then show ?thesis
    unfolding draw_def using ok by (intro ens_bind ens_set_V[of p s] byte_consts) simp_all
qed

lemma key_skip_ok:
  "ok_at p s \<Longrightarrow> ensures (key_skip nn x s) (\<lambda>s'. ok_at p s' \<or> ok_at (p + 2) s' \<or> ok_at (p + 4) s')"
  by (auto simp: ensures_def key_skip_def skip_if_def ok_at_def split: bind_splits if_splits)

lemma dump_regs_ok: "ok_at p s \<Longrightarrow> ensures (dump_regs regs s) (ok_at p)"
proof (induction regs arbitrary: s)
  case Nil
  then show ?case by (simp add: ens_Some)
next
  case (Cons i regs)
  have "ok_at p (s\<lparr>memory := mem\<rparr>)"
    if "py_get (V s) i = Some v" and "py_set (memory s) (I s + i) v = Some mem" for v mem
    using that Cons.prems py_get_all[of byte "V s" i v] py_set_all[of byte "memory s" v "I s + i" mem]
    by (simp add: state_ok_def ok_at_def)
  then have "ensures (dump_regs regs (s\<lparr>memory := mem\<rparr>)) (ok_at p)"
    if "py_get (V s) i = Some v" and "py_set (memory s) (I s + i) v = Some mem" for v mem
    using that by (intro Cons.IH)
  then show ?case
    by (simp add: ensures_def split: bind_splits)
qed

lemma load_regs_ok: "ok_at p s \<Longrightarrow> ensures (load_regs regs s) (ok_at p)"
proof (induction regs arbitrary: s)
  case Nil
  then show ?case by (simp add: ens_Some)
next
  case (Cons i regs)
  have "ensures (py_get (memory s) (I s + i))
          (\<lambda>b. ensures (set_V i b s) (\<lambda>s1. ensures (load_regs regs s1) (ok_at p)))"
    using Cons.prems by (intro ens_get_memory[of p s] ens_set_V[of p s]) (simp_all add: Cons.IH)
  then show ?case
    by (simp add: ensures_def split: bind_splits)
qed

lemma ok_at_delay: "ok_at p s \<Longrightarrow> byte v \<Longrightarrow> ok_at p (s\<lparr>delay_timer := v\<rparr>)"
  by (simp add: ok_at_def state_ok_def)

lemma ok_at_bcd:
  "ok_at p s \<Longrightarrow> byte v \<Longrightarrow>
   ok_at p (s\<lparr>memory := py_set_slice (memory s) a b [v div 100, v div 10 mod 10, v mod 10]\<rparr>)"
  by (simp add: ok_at_def state_ok_def py_set_slice_all byte_digits)

lemma ok_at_delay_timer: "ok_at p s \<Longrightarrow> byte (delay_timer s)"
  by (simp add: ok_at_def state_ok_def)

lemmas ens_dump_regs [ens] = ens_mono[OF dump_regs_ok]

lemmas ens_load_regs [ens] = ens_mono[OF load_regs_ok]

lemma misc_ok: "ok_at p s \<Longrightarrow> ensures (misc nn x s) (ok_at p)"
  unfolding misc_def
  by (intro ens conjI impI ok_at_delay ok_at_bcd ok_at_delay_timer | assumption | simp)+

lemmas ens_alu [ens] = ens_mono[OF alu_ok]

lemmas ens_misc [ens] = ens_mono[OF misc_ok]

lemmas ens_draw [ens] = ens_mono[OF draw_ok]

lemmas ens_key_skip [ens] = ens_mono[OF key_skip_ok]

lemma ens_set_stack [ens]:
  "ok_at p s \<Longrightarrow> return_address v \<Longrightarrow> (\<And>st. list_all return_address st \<Longrightarrow> Q st) \<Longrightarrow>
   ensures (py_set (stack s) i v) Q"
  by (auto simp: ensures_def ok_at_def state_ok_def dest: py_set_all)

lemma byte_rnd: "byte (rnd AND (opcode AND 0xFF))"
  by (rule byte_and(3)) (rule byte_and(1))

lemma address_range: "0 \<le> opcode AND 0xFFF" "opcode AND 0xFFF \<le> (0xFFF :: int)"
  by simp_all

lemma execute_ok:
  assumes ok: "ok_at p s" and lo: "0 \<le> p" and hi: "p < 4094"
  shows "ensures (execute rnd opcode s) in_range"
proof -
  define nnn where "nnn = opcode AND 0xFFF"
  have n: "0 \<le> nnn" "nnn \<le> 4095"
    by (simp_all add: nnn_def)
  have ret: "return_address (PC s)"
    using ok lo hi by (simp add: return_address_def ok_at_def)
  have s: "state_ok s" "PC s = p"
    using ok by (simp_all add: ok_at_def)
  show ?thesis
    unfolding execute_def Let_def nnn_def[symmetric]
    apply (intro ens_if ens_bind ens_Some ens_get_V[OF ok] ens_get_stack[OF ok]
        ens_set_stack[OF ok] ens_set_V[OF ok] ens_alu[OF ok] ens_misc[OF ok] ens_draw[OF ok]
        ens_key_skip[OF ok] byte_rnd byte_and(1) ret)
    using s lo hi n
    by (auto simp: in_range_def ok_at_def state_ok_def skip_if_def return_address_def byte_def)
qed

lemma cycle_ok: "in_range s \<Longrightarrow> ensures (cycle rnd s) in_range"
proof -
  assume r: "in_range s"
  have "ensures (execute rnd opcode s) in_range" if "\<not> PC s \<ge> max_pc s" for opcode
    using r that by (intro execute_ok[of "PC s"]) (simp_all add: in_range_def ok_at_def state_ok_def)
  then show ?thesis
    using r by (auto simp: cycle_def ensures_def split: bind_splits)
qed

lemma cycles_ok: "in_range s \<Longrightarrow> ensures (cycles rs s) in_range"
proof (induction rs arbitrary: s)
  case Nil
  then show ?case by (simp add: ens_Some)
next
  case (Cons r rs)
  have "ensures (cycle r s) (\<lambda>s1. ensures (cycles rs s1) in_range)"
    using Cons.prems by (intro ens_mono[OF cycle_ok]) (simp_all add: Cons.IH)
  then show ?case by (simp add: ens_bind)
qed

lemma cycles_halted: "max_pc s \<le> PC s \<Longrightarrow> cycles rs s = Some s"
  by (induction rs) (simp_all add: cycle_def)

lemma FONTSET_bytes: "list_all byte FONTSET"
  by (simp add: FONTSET_def byte_def)

lemma loaded_in_range:
  assumes "list_all byte data"
  shows "in_range (boot\<lparr>memory := rom_memory data\<rparr>)"
proof -
  have "list_all byte (memory boot)"
    using FONTSET_bytes by (simp add: boot_def list_all_iff byte_def)
  then have "list_all byte (rom_memory data)"
    using assms by (auto simp: rom_memory_def list_all_iff dest: in_set_takeD in_set_dropD)
  then show ?thesis
    by (simp add: in_range_def state_ok_def boot_fields byte_def return_address_def list_all_iff
        boot_def)
qed

text \<open>The invariant under timer ticks, key events and redraws.\<close>

lemma KEY_MAP_codes: "map_of KEY_MAP keysym = Some k \<Longrightarrow> 0 \<le> k \<and> k < 16"
  by (auto simp: KEY_MAP_def split: if_splits)

text \<open>Every keypad code 0 to 15 has a key, so key events deliver each of them.\<close>

lemma KEY_MAP_onto:
  assumes "0 \<le> k" and "k < 16"
  shows "\<exists>keysym. apply_event (KeyPress keysym) s = key_press k s \<and>
                  apply_event (KeyRelease keysym) s = key_release k s"
proof -
  have c: "k = 0 \<or> k = 1 \<or> k = 2 \<or> k = 3 \<or> k = 4 \<or> k = 5 \<or> k = 6 \<or> k = 7 \<or>
           k = 8 \<or> k = 9 \<or> k = 10 \<or> k = 11 \<or> k = 12 \<or> k = 13 \<or> k = 14 \<or> k = 15"
    using assms by arith
  have m: "map_of KEY_MAP ''x'' = Some 0" "map_of KEY_MAP ''1'' = Some 1"
    "map_of KEY_MAP ''2'' = Some 2" "map_of KEY_MAP ''3'' = Some 3"
    "map_of KEY_MAP ''q'' = Some 4" "map_of KEY_MAP ''w'' = Some 5"
    "map_of KEY_MAP ''e'' = Some 6" "map_of KEY_MAP ''a'' = Some 7"
    "map_of KEY_MAP ''s'' = Some 8" "map_of KEY_MAP ''d'' = Some 9"
    "map_of KEY_MAP ''z'' = Some 10" "map_of KEY_MAP ''c'' = Some 11"
    "map_of KEY_MAP ''4'' = Some 12" "map_of KEY_MAP ''r'' = Some 13"
    "map_of KEY_MAP ''f'' = Some 14" "map_of KEY_MAP ''v'' = Some 15"
    by (simp_all add: KEY_MAP_def)
  have "\<exists>keysym. map_of KEY_MAP keysym = Some k"
    using c m by blast
  then obtain keysym where "map_of KEY_MAP keysym = Some k" by blast
  then have "apply_event (KeyPress keysym) s = key_press k s \<and>
             apply_event (KeyRelease keysym) s = key_release k s"
    by simp
  then show ?thesis by blast
qed

lemma update_timers_ok: "in_range s \<Longrightarrow> in_range (update_timers s)"
  by (auto simp: in_range_def state_ok_def update_timers_def Let_def byte_def)

lemma key_press_ok:
  assumes "in_range s" and "0 \<le> k" and "k < 16"
  shows "ensures (key_press k s) in_range"
proof -
  have b: "byte k" using assms(2,3) by (simp add: byte_def)
  have ok: "ok_at (PC s) (s\<lparr>keys := ks\<rparr>)" for ks
    using assms(1) by (simp add: ok_at_def in_range_def)
  have fin: "in_range (s2\<lparr>waiting_for_key := False\<rparr>)" if "ok_at (PC s) s2" for s2
    using that assms(1) by (simp add: ok_at_def in_range_def)
  have "ensures (set_V i k (s\<lparr>keys := ks\<rparr>)) (\<lambda>s2. in_range (s2\<lparr>waiting_for_key := False\<rparr>))" for i ks
    by (intro ens_set_V[OF ok] b fin)
  moreover have "in_range (s\<lparr>keys := ks\<rparr>)" for ks
    using assms(1) by (simp add: in_range_def)
  ultimately show ?thesis
    by (auto simp: key_press_def ensures_def Let_def split: bind_splits)
qed

lemma key_release_ok: "in_range s \<Longrightarrow> ensures (key_release k s) in_range"
  by (auto simp: key_release_def ensures_def in_range_def split: bind_splits)

lemma apply_event_ok: "in_range s \<Longrightarrow> ensures (apply_event e s) in_range"
proof (cases e)
  case (Step rnd)
  then show "in_range s \<Longrightarrow> ?thesis" by (simp add: cycle_ok)
next
  case Tick
  then show "in_range s \<Longrightarrow> ?thesis" by (simp add: ens_Some update_timers_ok)
next
  case Drawn
  then show "in_range s \<Longrightarrow> ?thesis" by (simp add: ensures_def in_range_def)
next
  case (KeyPress keysym)
  then show "in_range s \<Longrightarrow> ?thesis"
    using key_press_ok[of s] KEY_MAP_codes[of keysym]
    by (cases "map_of KEY_MAP keysym") (simp_all add: ens_Some)
next
  case (KeyRelease keysym)
  then show "in_range s \<Longrightarrow> ?thesis"
    using key_release_ok[of s]
    by (cases "map_of KEY_MAP keysym") (simp_all add: ens_Some)
qed

lemma run_ok: "in_range s \<Longrightarrow> ensures (run es s) in_range"
proof (induction es arbitrary: s)
  case Nil
  then show ?case by (simp add: ens_Some)
next
  case (Cons e es)
  have "ensures (apply_event e s) (\<lambda>s1. ensures (run es s1) in_range)"
    using Cons.prems by (intro ens_mono[OF apply_event_ok]) (simp_all add: Cons.IH)
  then show ?case by (simp add: ens_bind)
qed

lemma run_steps: "run (map Step rs) s = cycles rs s"
proof (induction rs arbitrary: s)
  case Nil
  then show ?case by simp
next
  case (Cons r rs)
  have "run (map Step rs) = cycles rs" by (rule ext) (rule Cons.IH)
  then show ?case by simp
qed

lemma apply_event_halted:
  "max_pc s \<le> PC s \<Longrightarrow> apply_event e s = Some s1 \<Longrightarrow> PC s1 = PC s \<and> max_pc s1 = max_pc s"
  by (cases e)
    (auto simp: cycle_def update_timers_def Let_def key_press_def key_release_def set_V_def
      split: bind_splits option.splits if_splits)

lemma run_halted:
  "max_pc s \<le> PC s \<Longrightarrow> run es s = Some s' \<Longrightarrow> PC s' = PC s \<and> max_pc s' = max_pc s"
proof (induction es arbitrary: s)
  case Nil
  then show ?case by simp
next
  case (Cons e es)
  from Cons.prems(2) obtain s1 where a: "apply_event e s = Some s1" and r: "run es s1 = Some s'"
    by (auto split: bind_splits)
  have h: "PC s1 = PC s \<and> max_pc s1 = max_pc s"
    using apply_event_halted[OF Cons.prems(1) a] .
  then have "PC s' = PC s1 \<and> max_pc s' = max_pc s1"
    using Cons.IH[of s1] Cons.prems(1) r by simp
  then show ?case using h by simp
qed

text \<open>
  C8, as the claim states it, fails on both sides. The ROM 10 00 jumps to address 0: after
  one step the program counter is 0, below 0x200. The ROM 60 FF BF FF sets V0 to 255 and
  jumps to 0xFFF + V0: after two steps the program counter is 4350, above 4094.
\<close>

theorem pc_leaves_range_counterexample:
  "(load_rom [0x10, 0x00] boot \<bind> (\<lambda>(ok, s). cycles [0] s) \<bind> (\<lambda>s. Some (PC s))) = Some 0 \<and>
   (load_rom [0x60, 0xFF, 0xBF, 0xFF] boot \<bind> (\<lambda>(ok, s). cycles [0, 0] s) \<bind> (\<lambda>s. Some (PC s)))
     = Some 4350"
proof -
  have bytes: "py_get (rom_memory [a, b]) 512 = Some a" "py_get (rom_memory [a, b]) 513 = Some b"
    "py_get (rom_memory [a, b, c, d]) 512 = Some a"
    "py_get (rom_memory [a, b, c, d]) 513 = Some b"
    "py_get (rom_memory [a, b, c, d]) 514 = Some c"
    "py_get (rom_memory [a, b, c, d]) 515 = Some d" for a b c d
    using rom_memory_byte[of "[a, b]" 0] rom_memory_byte[of "[a, b]" 1]
      rom_memory_byte[of "[a, b, c, d]" 0] rom_memory_byte[of "[a, b, c, d]" 1]
      rom_memory_byte[of "[a, b, c, d]" 2] rom_memory_byte[of "[a, b, c, d]" 3]
    by simp_all
  show ?thesis
    by (simp add: load_rom_memory cycle_def execute_def Let_def boot_fields bytes
        set_V_def py_get_nat py_set_nat)
qed

text \<open>
  C8, amended. Starting from any ROM that loads (a sequence of bytes), after every
  sequence of engine steps, timer ticks, redraws and key events (in any order, with
  any random bytes and any key symbols) that returns, the program counter is at least 0
  and at most 0xFFF + 0xFF = 4350, the largest target of a jump with offset. The bound
  \<open>max_pc\<close> guards the fetch only: once the program counter is at or above it, every
  run of engine steps returns the same state, and no later sequence of events changes
  the program counter.
\<close>

theorem pc_range:
  assumes "list_all byte data" and "load_rom data s0 = Some (True, s)" and "run es s = Some s'"
  shows "0 \<le> PC s' \<and> PC s' \<le> 0xFFF + 0xFF \<and>
         (max_pc s' \<le> PC s' \<longrightarrow> cycles rs' s' = Some s') \<and>
         (max_pc s' \<le> PC s' \<and> run es' s' = Some s'' \<longrightarrow> PC s'' = PC s')"
proof -
  have len: "length data \<le> 3584"
    using assms(2) by (simp add: load_rom_def split: if_splits)
  have "s = boot\<lparr>memory := rom_memory data\<rparr>"
    using assms(2) load_rom_memory[OF len, of s0] by simp
  then have "in_range s" using loaded_in_range[OF assms(1)] by simp
  then have "in_range s'"
    using run_ok[of s es] assms(3) by (simp add: ensures_def)
  then show ?thesis
    using run_halted[of s' es' s''] by (simp add: in_range_def cycles_halted)
qed

theorem pc_range_witness:
  "list_all byte [0xF0, 0x0A, 0xB3, 0x00] \<and>
   (\<exists>s s'. load_rom [0xF0, 0x0A, 0xB3, 0x00] boot = Some (True, s) \<and>
       run [Step 0, Tick, KeyPress ''w'', Drawn, KeyRelease ''w'', Step 0] s = Some s' \<and>
       PC s' = 0x305 \<and> 0 \<le> PC s' \<and> PC s' \<le> 0xFFF + 0xFF) \<and>
   list_all byte [0x60, 0xFF, 0xBF, 0xFF] \<and>
   (\<exists>s s' s''. load_rom [0x60, 0xFF, 0xBF, 0xFF] boot = Some (True, s) \<and>
       run [Step 0, Tick, Step 0] s = Some s' \<and> PC s' = 0xFFF + 0xFF \<and>
       0 \<le> PC s' \<and> PC s' \<le> 0xFFF + 0xFF \<and> max_pc s' \<le> PC s' \<and>
       cycles [0, 0, 0] s' = Some s' \<and>
       run [Tick, KeyPress ''q'', Step 0] s' = Some s'' \<and> PC s'' = PC s')"
proof -
  have bytes: "py_get (rom_memory [a, b, c, d]) 512 = Some a"
    "py_get (rom_memory [a, b, c, d]) 513 = Some b"
    "py_get (rom_memory [a, b, c, d]) 514 = Some c"
    "py_get (rom_memory [a, b, c, d]) 515 = Some d" for a b c d
    using rom_memory_byte[of "[a, b, c, d]" 0] rom_memory_byte[of "[a, b, c, d]" 1]
      rom_memory_byte[of "[a, b, c, d]" 2] rom_memory_byte[of "[a, b, c, d]" 3]
    by simp_all
  have keys: "map_of KEY_MAP ''w'' = Some 5" "map_of KEY_MAP ''q'' = Some 4"
    by (simp_all add: KEY_MAP_def)
  have b1: "list_all byte [0xF0, 0x0A, 0xB3, 0x00]" by (simp add: byte_def)
  have l1: "load_rom [0xF0, 0x0A, 0xB3, 0x00] boot
             = Some (True, boot\<lparr>memory := rom_memory [0xF0, 0x0A, 0xB3, 0x00]\<rparr>)"
    by (simp add: load_rom_memory)
  have "\<exists>s'. run [Step 0, Tick, KeyPress ''w'', Drawn, KeyRelease ''w'', Step 0]
                (boot\<lparr>memory := rom_memory [0xF0, 0x0A, 0xB3, 0x00]\<rparr>) = Some s' \<and> PC s' = 0x305"
    by (simp add: cycle_def execute_def Let_def misc_def boot_fields bytes keys update_timers_def
        key_press_def key_release_def set_V_def py_get_nat py_set_nat)
  then obtain t' where r1: "run [Step 0, Tick, KeyPress ''w'', Drawn, KeyRelease ''w'', Step 0]
                (boot\<lparr>memory := rom_memory [0xF0, 0x0A, 0xB3, 0x00]\<rparr>) = Some t'"
    and p1: "PC t' = 0x305" by blast
  have c1: "0 \<le> PC t' \<and> PC t' \<le> 0xFFF + 0xFF"
    using pc_range[OF b1 l1 r1] by simp
  have b2: "list_all byte [0x60, 0xFF, 0xBF, 0xFF]" by (simp add: byte_def)
  have l2: "load_rom [0x60, 0xFF, 0xBF, 0xFF] boot
             = Some (True, boot\<lparr>memory := rom_memory [0x60, 0xFF, 0xBF, 0xFF]\<rparr>)"
    by (simp add: load_rom_memory)
  have "\<exists>s'. run [Step 0, Tick, Step 0] (boot\<lparr>memory := rom_memory [0x60, 0xFF, 0xBF, 0xFF]\<rparr>) = Some s' \<and>
          PC s' = 0xFFF + 0xFF \<and> max_pc s' = 4094 \<and> keys s' = replicate 16 0 \<and> \<not> waiting_for_key s'"
    by (simp add: cycle_def execute_def Let_def boot_fields bytes update_timers_def
        set_V_def py_get_nat py_set_nat)
  then obtain u' where r2: "run [Step 0, Tick, Step 0]
        (boot\<lparr>memory := rom_memory [0x60, 0xFF, 0xBF, 0xFF]\<rparr>) = Some u'"
    and p2: "PC u' = 0xFFF + 0xFF" "max_pc u' = 4094" "keys u' = replicate 16 0" "\<not> waiting_for_key u'"
    by blast
  have "\<exists>s''. run [Tick, KeyPress ''q'', Step 0] u' = Some s''"
    using p2 by (simp add: keys key_press_def py_set_nat cycle_def update_timers_def Let_def)
  then obtain u'' where r3: "run [Tick, KeyPress ''q'', Step 0] u' = Some u''" by blast
  have c2: "0 \<le> PC u' \<and> PC u' \<le> 0xFFF + 0xFF \<and>
         (max_pc u' \<le> PC u' \<longrightarrow> cycles [0, 0, 0] u' = Some u') \<and>
         (max_pc u' \<le> PC u' \<and> run [Tick, KeyPress ''q'', Step 0] u' = Some u'' \<longrightarrow> PC u'' = PC u')"
    using pc_range[OF b2 l2 r2, of "[0, 0, 0]" "[Tick, KeyPress ''q'', Step 0]" u''] .
  have h: "max_pc u' \<le> PC u'" using p2 by simp
  show ?thesis
    using b1 l1 r1 p1 c1 b2 l2 r2 p2(1) c2 h r3 by blast
qed

end
